theory Spec2Isabelle
  imports Complex_Main "HOL-Library.Word"
begin

section \<open>Python values shared by the modules\<close>

text \<open>
  A Python \<open>float\<close> is modelled by the real number it denotes, together with the three
  special values of IEEE 754. Every comparison with \<open>nan\<close> is false, as in Python.
  A decimal literal of the source (\<open>0.7\<close>) is read as the real number it writes.
\<close>

datatype pyfloat = Fin real | PInf | NInf | NaN

fun py_le :: "pyfloat \<Rightarrow> pyfloat \<Rightarrow> bool" where
  "py_le NaN _ = False"
| "py_le _ NaN = False"
| "py_le NInf _ = True"
| "py_le _ PInf = True"
| "py_le (Fin a) (Fin b) = (a \<le> b)"
| "py_le PInf _ = False"
| "py_le _ NInf = False"

definition py_ge :: "pyfloat \<Rightarrow> pyfloat \<Rightarrow> bool" where
  "py_ge x y = py_le y x"

text \<open>The exceptions the modelled functions raise, as values.\<close>

datatype error =
    ValueError string
  | KeyError string
  | OverflowError string
  | FileNotFoundError string
  | OracleError string

text \<open>\<open>sep.join(parts)\<close> and \<open>needle in haystack\<close> on strings.\<close>

fun str_join :: "string \<Rightarrow> string list \<Rightarrow> string" where
  "str_join sep [] = []"
| "str_join sep [x] = x"
| "str_join sep (x # y # ys) = x @ sep @ str_join sep (y # ys)"

fun starts_with :: "string \<Rightarrow> string \<Rightarrow> bool" where
  "starts_with s [] = True"
| "starts_with [] (p # ps) = False"
| "starts_with (c # cs) (p # ps) = (c = p \<and> starts_with cs ps)"

fun str_contains :: "string \<Rightarrow> string \<Rightarrow> bool" where
  "str_contains [] needle = (needle = [])"
| "str_contains (c # cs) needle = (starts_with (c # cs) needle \<or> str_contains cs needle)"

section \<open>api/decision_engine.py\<close>

subsection \<open>The rule layer: \<open>_apply_decision_rules\<close>\<close>

definition HIGH_FRAUD_THRESHOLD :: pyfloat where "HIGH_FRAUD_THRESHOLD = Fin 0.7"
definition SOFT_FRAUD_THRESHOLD :: pyfloat where "SOFT_FRAUD_THRESHOLD = Fin 0.5"
definition HIGH_ANOMALY_THRESHOLD :: pyfloat where "HIGH_ANOMALY_THRESHOLD = Fin (- 0.15)"
definition SOFT_ANOMALY_THRESHOLD :: pyfloat where "SOFT_ANOMALY_THRESHOLD = Fin (- 0.10)"

definition apply_decision_rules :: "pyfloat \<Rightarrow> pyfloat \<Rightarrow> int \<Rightarrow> int \<Rightarrow> string \<times> string" where
  "apply_decision_rules fraud_probability anomaly_score is_qr beneficiary_is_new =
     (let high_fraud = py_ge fraud_probability HIGH_FRAUD_THRESHOLD;
          high_anomaly = py_le anomaly_score HIGH_ANOMALY_THRESHOLD;
          soft_fraud = py_ge fraud_probability SOFT_FRAUD_THRESHOLD;
          soft_anomaly = py_le anomaly_score SOFT_ANOMALY_THRESHOLD;
          qr_payment = (is_qr = 1);
          new_beneficiary = (beneficiary_is_new = 1)
      in if high_fraud \<and> high_anomaly \<and> qr_payment \<and> new_beneficiary
         then (''HARD_BLOCK'', ''QR_NEW_BENEFICIARY_HIGH_FRAUD_HIGH_ANOMALY'')
         else if soft_fraud \<or> soft_anomaly
         then (let reasons = [];
                   reasons = (if soft_fraud then reasons @ [''FRAUD_SIGNAL''] else reasons);
                   reasons = (if soft_anomaly then reasons @ [''ANOMALY_SIGNAL''] else reasons)
               in (''SOFT_BLOCK'', str_join ''_'' reasons))
         else (''ALLOW'', ''NO_SIGNIFICANT_RISK''))"

text \<open>The four-way conjunction of the hard-block rule, and the two soft conditions.\<close>

definition hard_block_combo :: "pyfloat \<Rightarrow> pyfloat \<Rightarrow> int \<Rightarrow> int \<Rightarrow> bool" where
  "hard_block_combo fp an q b =
     (py_ge fp (Fin 0.7) \<and> py_le an (Fin (- 0.15)) \<and> q = 1 \<and> b = 1)"

definition soft_fraud_cond :: "pyfloat \<Rightarrow> bool" where
  "soft_fraud_cond fp = py_ge fp (Fin 0.5)"

definition soft_anomaly_cond :: "pyfloat \<Rightarrow> bool" where
  "soft_anomaly_cond an = py_le an (Fin (- 0.10))"

subsection \<open>\<open>make_decision\<close>\<close>

text \<open>
  A \<open>pandas.DataFrame\<close> of numeric features: the column labels in their order, and the rows,
  each a list of cells in column order. The argument of \<open>make_decision\<close> is any Python
  object: a frame or something else.
\<close>

record 'v frame =
  columns :: "string list"
  rows :: "'v list list"







section \<open>Strings and regular expressions of the Python library\<close>

text \<open>
  A Python \<open>str\<close> is modelled as a list of characters. The character classes below are the
  ones Python's \<open>re\<close> and \<open>str\<close> methods use, restricted to ASCII: the model is exact for
  ASCII text, and a character outside ASCII is in no class and has no case.
\<close>

definition code :: "char \<Rightarrow> nat" where
  "code c = of_char c"

definition is_digit :: "char \<Rightarrow> bool" where
  "is_digit c = (48 \<le> code c \<and> code c \<le> 57)"

definition is_upper :: "char \<Rightarrow> bool" where
  "is_upper c = (65 \<le> code c \<and> code c \<le> 90)"

definition is_lower :: "char \<Rightarrow> bool" where
  "is_lower c = (97 \<le> code c \<and> code c \<le> 122)"

definition is_alpha :: "char \<Rightarrow> bool" where
  "is_alpha c = (is_upper c \<or> is_lower c)"

text \<open>\<open>\w\<close>, and \<open>\s\<close> (which is also what \<open>str.strip()\<close> removes).\<close>

definition is_word :: "char \<Rightarrow> bool" where
  "is_word c = (is_alpha c \<or> is_digit c \<or> c = CHR ''_'')"

definition is_space :: "char \<Rightarrow> bool" where
  "is_space c = ((9 \<le> code c \<and> code c \<le> 13) \<or> (28 \<le> code c \<and> code c \<le> 32))"

definition lower_char :: "char \<Rightarrow> char" where
  "lower_char c = (if is_upper c then char_of (code c + 32) else c)"

definition str_lower :: "string \<Rightarrow> string" where
  "str_lower s = map lower_char s"

definition str_strip :: "string \<Rightarrow> string" where
  "str_strip s = rev (dropWhile is_space (rev (dropWhile is_space s)))"

definition str_replace_char :: "char \<Rightarrow> char \<Rightarrow> string \<Rightarrow> string" where
  "str_replace_char old new s = map (\<lambda>c. if c = old then new else c) s"

text \<open>
  The fragment of regular expressions the repository uses: a pattern is a sequence of
  items. \<open>Bnd\<close> is \<open>\b\<close>, \<open>Behind C\<close> is the look-behind \<open>(?<=[C])\<close>, \<open>One C\<close> is one character
  of the class \<open>C\<close>, and \<open>Rep C lo hi\<close> is the greedy repetition \<open>[C]{lo,hi}\<close> (\<open>hi = None\<close>:
  no upper bound, so \<open>[C]+\<close> is \<open>Rep C 1 None\<close>).
\<close>

datatype item =
    Bnd
  | Behind "char \<Rightarrow> bool"
  | One "char \<Rightarrow> bool"
  | Rep "char \<Rightarrow> bool" nat "nat option"

definition word_opt :: "char option \<Rightarrow> bool" where
  "word_opt p = (case p of None \<Rightarrow> False | Some c \<Rightarrow> is_word c)"

definition at_boundary :: "char option \<Rightarrow> string \<Rightarrow> bool" where
  "at_boundary p s = (word_opt p \<noteq> word_opt (case s of [] \<Rightarrow> None | c # _ \<Rightarrow> Some c))"

definition hi_left :: "nat option \<Rightarrow> bool" where
  "hi_left hi = (hi \<noteq> Some 0)"

definition hi_dec :: "nat option \<Rightarrow> nat option" where
  "hi_dec hi = map_option (\<lambda>h. h - 1) hi"

text \<open>
  The backtracking matcher. \<open>rmatch r p s\<close> tries the pattern \<open>r\<close> at the start of \<open>s\<close>,
  where \<open>p\<close> is the character before \<open>s\<close> in the subject (\<open>None\<close> at its start), and returns
  the length of the match the engine finds first: a repetition takes one more character
  whenever the rest of the pattern can still match after it, and otherwise stops if it
  has its minimum.
\<close>

fun rmatch :: "item list \<Rightarrow> char option \<Rightarrow> string \<Rightarrow> nat option" where
  "rmatch [] p s = Some 0"
| "rmatch (Bnd # r) p s = (if at_boundary p s then rmatch r p s else None)"
| "rmatch (Behind C # r) p s =
     (case p of None \<Rightarrow> None | Some c \<Rightarrow> if C c then rmatch r p s else None)"
| "rmatch (One C # r) p [] = None"
| "rmatch (One C # r) p (c # cs) =
     (if C c then map_option Suc (rmatch r (Some c) cs) else None)"
| "rmatch (Rep C lo hi # r) p [] = (if lo = 0 then rmatch r p [] else None)"
| "rmatch (Rep C lo hi # r) p (c # cs) =
     (case (if C c \<and> hi_left hi
            then map_option Suc (rmatch (Rep C (lo - 1) (hi_dec hi) # r) (Some c) cs)
            else None) of
        Some n \<Rightarrow> Some n
      | None \<Rightarrow> if lo = 0 then rmatch r p (c # cs) else None)"

text \<open>A pattern with alternatives \<open>r1|r2|...\<close>: the first alternative that matches wins.\<close>

fun amatch :: "item list list \<Rightarrow> char option \<Rightarrow> string \<Rightarrow> nat option" where
  "amatch [] p s = None"
| "amatch (r # rs) p s = (case rmatch r p s of Some n \<Rightarrow> Some n | None \<Rightarrow> amatch rs p s)"

text \<open>
  \<open>re.sub\<close>, \<open>re.split\<close> and \<open>re.findall\<close> scan the subject from left to right; at each
  position they try the pattern, and after a match they go on behind it. The scanners
  carry the character before the current position and the number \<open>k\<close> of characters of
  the current match still to be skipped. None of the repository's patterns matches the
  empty string, and the scanners are written for such patterns: an empty match counts
  as no match. In \<open>re_sub\<close> the replacement is a function of the matched text.
\<close>

fun re_sub_go :: "item list list \<Rightarrow> (string \<Rightarrow> string) \<Rightarrow> char option \<Rightarrow> nat \<Rightarrow> string \<Rightarrow> string" where
  "re_sub_go r f p k [] = []"
| "re_sub_go r f p (Suc k) (c # cs) = re_sub_go r f (Some c) k cs"
| "re_sub_go r f p 0 (c # cs) =
     (case amatch r p (c # cs) of
        Some (Suc n) \<Rightarrow> f (take (Suc n) (c # cs)) @ re_sub_go r f (Some c) n cs
      | _ \<Rightarrow> c # re_sub_go r f (Some c) 0 cs)"

definition re_sub :: "item list list \<Rightarrow> (string \<Rightarrow> string) \<Rightarrow> string \<Rightarrow> string" where
  "re_sub r f s = re_sub_go r f None 0 s"

fun re_findall_go :: "item list list \<Rightarrow> char option \<Rightarrow> nat \<Rightarrow> string \<Rightarrow> string list" where
  "re_findall_go r p k [] = []"
| "re_findall_go r p (Suc k) (c # cs) = re_findall_go r (Some c) k cs"
| "re_findall_go r p 0 (c # cs) =
     (case amatch r p (c # cs) of
        Some (Suc n) \<Rightarrow> take (Suc n) (c # cs) # re_findall_go r (Some c) n cs
      | _ \<Rightarrow> re_findall_go r (Some c) 0 cs)"

definition re_findall :: "item list list \<Rightarrow> string \<Rightarrow> string list" where
  "re_findall r s = re_findall_go r None 0 s"

text \<open>
  \<open>re_split_go\<close> returns the parts from the current position on; its first part is the
  one the current position lies in.
\<close>

fun re_split_go :: "item list list \<Rightarrow> char option \<Rightarrow> nat \<Rightarrow> string \<Rightarrow> string list" where
  "re_split_go r p k [] = [[]]"
| "re_split_go r p (Suc k) (c # cs) = re_split_go r (Some c) k cs"
| "re_split_go r p 0 (c # cs) =
     (case amatch r p (c # cs) of
        Some (Suc n) \<Rightarrow> [] # re_split_go r (Some c) n cs
      | _ \<Rightarrow> (case re_split_go r (Some c) 0 cs of
                [] \<Rightarrow> [[c]]
              | part # parts \<Rightarrow> (c # part) # parts))"

definition re_split :: "item list list \<Rightarrow> string \<Rightarrow> string list" where
  "re_split r s = re_split_go r None 0 s"

text \<open>Whether the pattern matches somewhere in the subject (\<open>re.search\<close> finds a match).\<close>

fun re_search_go :: "item list list \<Rightarrow> char option \<Rightarrow> string \<Rightarrow> bool" where
  "re_search_go r p [] = (amatch r p [] \<noteq> None)"
| "re_search_go r p (c # cs) = (amatch r p (c # cs) \<noteq> None \<or> re_search_go r (Some c) cs)"

definition re_search :: "item list list \<Rightarrow> string \<Rightarrow> bool" where
  "re_search r s = re_search_go r None s"

section \<open>rag/explainer.py\<close>

definition TOP_K :: nat where "TOP_K = 3"

subsection \<open>\<open>_code_to_query\<close>\<close>

text \<open>The patterns \<open>([a-z])([A-Z])\<close> with the replacement \<open>\1 \2\<close>, and \<open>\s+\<close>.\<close>

definition CAMEL_RE :: "item list list" where
  "CAMEL_RE = [[One is_lower, One is_upper]]"

definition camel_repl :: "string \<Rightarrow> string" where
  "camel_repl m = take 1 m @ '' '' @ drop 1 m"

definition SPACES_RE :: "item list list" where
  "SPACES_RE = [[Rep is_space 1 None]]"

definition code_to_query :: "string \<Rightarrow> string" where
  "code_to_query reason_code =
     (let s = reason_code;
          s = str_replace_char CHR ''-'' CHR '' '' (str_replace_char CHR ''_'' CHR '' '' s);
          s = re_sub CAMEL_RE camel_repl s;
          s = str_strip (re_sub SPACES_RE (\<lambda>_. '' '') s);
          s = str_lower s
      in ''guidance about '' @ s)"

subsection \<open>\<open>_scrub_pii\<close>\<close>

text \<open>The classes \<open>[\w.%-]\<close> and \<open>[\w.-]\<close>.\<close>

definition local_cls :: "char \<Rightarrow> bool" where
  "local_cls c = (is_word c \<or> c = CHR ''.'' \<or> c = CHR ''%'' \<or> c = CHR ''-'')"

definition handle_cls :: "char \<Rightarrow> bool" where
  "handle_cls c = (is_word c \<or> c = CHR ''.'' \<or> c = CHR ''-'')"

definition is_at :: "char \<Rightarrow> bool" where
  "is_at c = (c = CHR ''@'')"

definition is_dot :: "char \<Rightarrow> bool" where
  "is_dot c = (c = CHR ''.'')"

text \<open>
  \<open>\b[\w.%-]+@[\w.-]+\.[A-Za-z]{2,6}\b\<close>, \<open>\d{5,}\<close> and \<open>\b[\w.-]+@[\w.-]+\b\<close>.
\<close>

definition EMAIL_RE :: "item list list" where
  "EMAIL_RE = [[Bnd, Rep local_cls 1 None, One is_at, Rep handle_cls 1 None, One is_dot,
                Rep is_alpha 2 (Some 6), Bnd]]"

definition DIGITS_RE :: "item list list" where
  "DIGITS_RE = [[Rep is_digit 5 None]]"

definition HANDLE_RE :: "item list list" where
  "HANDLE_RE = [[Bnd, Rep handle_cls 1 None, One is_at, Rep handle_cls 1 None, Bnd]]"

definition REDACTED :: string where
  "REDACTED = ''[REDACTED]''"

definition scrub_pii :: "string \<Rightarrow> string" where
  "scrub_pii text0 =
     (let text1 = re_sub EMAIL_RE (\<lambda>_. REDACTED) text0;
          text2 = re_sub DIGITS_RE (\<lambda>_. REDACTED) text1;
          text3 = re_sub HANDLE_RE (\<lambda>_. REDACTED) text2
      in text3)"

subsection \<open>\<open>_extract_relevant_sentences\<close>\<close>

text \<open>\<open>(?<=[.!?])\s+|\n+\<close> and \<open>\w+\<close>.\<close>

definition is_sentence_end :: "char \<Rightarrow> bool" where
  "is_sentence_end c = (c = CHR ''.'' \<or> c = CHR ''!'' \<or> c = CHR ''?'')"

definition is_newline :: "char \<Rightarrow> bool" where
  "is_newline c = (c = CHR 0x0A)"

definition SENTENCE_RE :: "item list list" where
  "SENTENCE_RE = [[Behind is_sentence_end, Rep is_space 1 None], [Rep is_newline 1 None]]"

definition WORDS_RE :: "item list list" where
  "WORDS_RE = [[Rep is_word 1 None]]"

text \<open>The first loop: sentences that contain a query token, up to the cap.\<close>

fun select_matching :: "string list \<Rightarrow> nat \<Rightarrow> string list \<Rightarrow> string list \<Rightarrow> string list" where
  "select_matching lowered_tokens max_sentences selected [] = selected"
| "select_matching lowered_tokens max_sentences selected (part # parts) =
     (if part = [] \<or> length selected \<ge> max_sentences
      then select_matching lowered_tokens max_sentences selected parts
      else if list_ex (\<lambda>token. str_contains (str_lower part) token) lowered_tokens
      then select_matching lowered_tokens max_sentences (selected @ [str_strip part]) parts
      else select_matching lowered_tokens max_sentences selected parts)"

text \<open>The second loop, run when the first selected nothing: the first non-blank parts.\<close>

fun select_first :: "nat \<Rightarrow> string list \<Rightarrow> string list \<Rightarrow> string list" where
  "select_first max_sentences selected [] = selected"
| "select_first max_sentences selected (part # parts) =
     (let selected = (if str_strip part \<noteq> [] then selected @ [str_strip part] else selected)
      in if length selected \<ge> max_sentences then selected
         else select_first max_sentences selected parts)"

definition extract_relevant_sentences :: "string \<Rightarrow> string list \<Rightarrow> nat \<Rightarrow> string list" where
  "extract_relevant_sentences chunk query_tokens max_sentences =
     (let parts = re_split SENTENCE_RE chunk;
          lowered_tokens = map str_lower (filter (\<lambda>t. t \<noteq> []) query_tokens);
          selected = select_matching lowered_tokens max_sentences [] parts
      in if selected = [] then select_first max_sentences selected parts else selected)"

subsection \<open>\<open>explain_decision\<close>\<close>

text \<open>
  The module keeps the loaded embedding model, vector index and chunk list in three
  globals, filled on first use. The files they are read from are the environment of a
  call. The embedding model and the FAISS index are library objects: \<open>encode\<close> stands for
  \<open>model.encode\<close> followed by the conversion to \<open>float32\<close> and \<open>normalize_L2\<close>, and \<open>search\<close>
  for \<open>index.search\<close>, which returns the row \<open>indices[0]\<close>. Both are parameters, functions
  of the loaded object and the query.
\<close>

record ('m, 'i) explainer_globals =
  g_model :: "'m option"
  g_index :: "'i option"
  g_chunks :: "string list option"

record ('m, 'i) explainer_files =
  model_store :: "error + 'm"
  vector_index_file :: "'i option"
  chunks_file :: "string list option"

record ('m, 'i, 'q) explainer_lib =
  encode :: "'m \<Rightarrow> string \<Rightarrow> 'q"
  search :: "'i \<Rightarrow> 'q \<Rightarrow> nat \<Rightarrow> int list"

definition load_model ::
  "('m, 'i) explainer_files \<Rightarrow> ('m, 'i) explainer_globals
     \<Rightarrow> (error + 'm) \<times> ('m, 'i) explainer_globals" where
  "load_model files g =
     (case g_model g of
        Some m \<Rightarrow> (Inr m, g)
      | None \<Rightarrow>
          (case model_store files of
             Inl e \<Rightarrow> (Inl e, g)
           | Inr m \<Rightarrow> (Inr m, g\<lparr>g_model := Some m\<rparr>)))"

definition load_index_and_chunks ::
  "('m, 'i) explainer_files \<Rightarrow> ('m, 'i) explainer_globals
     \<Rightarrow> (error + 'i \<times> string list) \<times> ('m, 'i) explainer_globals" where
  "load_index_and_chunks files g =
     (case (case g_index g of
              Some i \<Rightarrow> (Inr i, g)
            | None \<Rightarrow>
                (case vector_index_file files of
                   None \<Rightarrow> (Inl (FileNotFoundError ''Vector index not found''), g)
                 | Some i \<Rightarrow> (Inr i, g\<lparr>g_index := Some i\<rparr>))) of
        (Inl e, g1) \<Rightarrow> (Inl e, g1)
      | (Inr i, g1) \<Rightarrow>
          (case g_chunks g1 of
             Some cs \<Rightarrow> (Inr (i, cs), g1)
           | None \<Rightarrow>
               (case chunks_file files of
                  None \<Rightarrow> (Inl (FileNotFoundError ''Chunks file not found''), g1)
                | Some cs \<Rightarrow> (Inr (i, cs), g1\<lparr>g_chunks := Some cs\<rparr>))))"

text \<open>The loop that assembles the summary: scrub each sentence, skip repeats.\<close>

fun add_sentences :: "string list \<Rightarrow> string list \<Rightarrow> string list" where
  "add_sentences summary_sentences [] = summary_sentences"
| "add_sentences summary_sentences (s # sentences) =
     (let cleaned = scrub_pii s
      in if cleaned \<noteq> [] \<and> cleaned \<notin> set summary_sentences
         then add_sentences (summary_sentences @ [cleaned]) sentences
         else add_sentences summary_sentences sentences)"

fun summarize :: "string list \<Rightarrow> string list \<Rightarrow> string list \<Rightarrow> string list" where
  "summarize query_tokens summary_sentences [] = summary_sentences"
| "summarize query_tokens summary_sentences (chunk # retrieved_texts) =
     summarize query_tokens
       (add_sentences summary_sentences (extract_relevant_sentences chunk query_tokens 2))
       retrieved_texts"

definition explanation_body :: "string list \<Rightarrow> string" where
  "explanation_body summary_sentences =
     (if summary_sentences = [] then ''No relevant guidance found in the knowledge index.''
      else str_join '' '' summary_sentences)"

definition CLOSING :: string where
  "CLOSING = ''Behavior patterns referenced: The retrieved guidance focuses on observable transaction and authentication patterns (for example, anomalous transaction amounts, unusual beneficiary additions, or repeated authentication failures) rather than on any individual or account.''"

definition compose_explanation :: "string \<Rightarrow> string \<Rightarrow> string" where
  "compose_explanation reason_code body =
     ''Explanation for reason code '' @ [CHR 0x27] @ reason_code @ [CHR 0x27] @ '':''
       @ [CHR 0x0A] @ ''Summary: '' @ body @ [CHR 0x0A] @ CLOSING"

text \<open>The summary sentences a call assembles from the loaded objects.\<close>

definition summary_of ::
  "('m, 'i, 'q) explainer_lib \<Rightarrow> 'm \<Rightarrow> 'i \<Rightarrow> string list \<Rightarrow> string \<Rightarrow> string list" where
  "summary_of lib model index chunks reason_code =
     (let query = code_to_query reason_code;
          query_tokens = re_findall WORDS_RE query;
          qvec = encode lib model query;
          indices = search lib index qvec TOP_K;
          idx_list = filter (\<lambda>i. i \<noteq> - 1) indices;
          retrieved_texts =
            map (\<lambda>idx. chunks ! nat idx)
              (filter (\<lambda>idx. 0 \<le> idx \<and> idx < int (length chunks)) idx_list)
      in summarize query_tokens [] retrieved_texts)"

definition explain_decision ::
  "('m, 'i, 'q) explainer_lib \<Rightarrow> ('m, 'i) explainer_files \<Rightarrow> ('m, 'i) explainer_globals
     \<Rightarrow> string \<Rightarrow> (error + string) \<times> ('m, 'i) explainer_globals" where
  "explain_decision lib files g reason_code =
     (if reason_code = [] then (Inl (ValueError ''reason_code must be a non-empty string''), g)
      else
        (case load_model files g of
           (Inl e, g1) \<Rightarrow> (Inl e, g1)
         | (Inr model, g1) \<Rightarrow>
        (case load_index_and_chunks files g1 of
           (Inl e, g2) \<Rightarrow> (Inl e, g2)
         | (Inr (index, chunks), g2) \<Rightarrow>
             (Inr (compose_explanation reason_code
                     (explanation_body (summary_of lib model index chunks reason_code))),
              g2))))"

section \<open>Notions for what scrubbing achieves\<close>

text \<open>
  The character before position \<open>m\<close> of a subject \<open>s\<close> that itself follows \<open>p\<close>, and the least
  number of characters a pattern consumes.
\<close>

definition prev_at :: "char option \<Rightarrow> string \<Rightarrow> nat \<Rightarrow> char option" where
  "prev_at p s m = (if m = 0 then p else Some (s ! (m - 1)))"

fun min_len :: "item list \<Rightarrow> nat" where
  "min_len [] = 0"
| "min_len (Bnd # r) = min_len r"
| "min_len (Behind C # r) = min_len r"
| "min_len (One C # r) = Suc (min_len r)"
| "min_len (Rep C lo hi # r) = lo + min_len r"

text \<open>
  A text starts with \<open>n\<close> digits; a text holds a run of five digits somewhere.
\<close>

fun dig_run :: "nat \<Rightarrow> string \<Rightarrow> bool" where
  "dig_run 0 s = True"
| "dig_run (Suc n) [] = False"
| "dig_run (Suc n) (c # cs) = (is_digit c \<and> dig_run n cs)"

fun has_run5 :: "string \<Rightarrow> bool" where
  "has_run5 [] = False"
| "has_run5 (c # cs) = (dig_run 5 (c # cs) \<or> has_run5 cs)"

text \<open>
  The shape of a handle \<open>local@domain\<close>, read from left to right. \<open>d_tail s\<close>: \<open>s\<close> starts with
  one or more characters of the class \<open>[\w.-]\<close> that end at a word boundary. \<open>l_tail s\<close>:
  \<open>s\<close> starts with characters of the class, then \<open>@\<close>, then such a domain. \<open>h_match p s\<close>:
  a handle starts at the beginning of \<open>s\<close>, which follows the character \<open>p\<close>. \<open>h_any p s\<close>:
  a handle starts somewhere in \<open>s\<close>.
\<close>

fun d_tail :: "string \<Rightarrow> bool" where
  "d_tail [] = False"
| "d_tail (c # cs) = (handle_cls c \<and> (at_boundary (Some c) cs \<or> d_tail cs))"

fun l_tail :: "string \<Rightarrow> bool" where
  "l_tail [] = False"
| "l_tail (c # cs) = ((c = CHR ''@'' \<and> d_tail cs) \<or> (handle_cls c \<and> l_tail cs))"

fun h_match :: "char option \<Rightarrow> string \<Rightarrow> bool" where
  "h_match p [] = False"
| "h_match p (c # cs) = (at_boundary p (c # cs) \<and> handle_cls c \<and> l_tail cs)"

fun h_any :: "char option \<Rightarrow> string \<Rightarrow> bool" where
  "h_any p [] = False"
| "h_any p (c # cs) = (h_match p (c # cs) \<or> h_any (Some c) cs)"

definition clean :: "string \<Rightarrow> bool" where
  "clean s = (\<not> has_run5 s \<and> \<not> h_any None s)"

section \<open>rag/build_index.py\<close>












section \<open>api/audit_logger.py\<close>

subsection \<open>SHA-256 (\<open>hashlib.sha256\<close>, FIPS 180-4)\<close>

text \<open>
  The digest is the library's. It is modelled on 32-bit words held as integers, every
  addition reduced modulo \<open>2^32\<close>; bytes are integers below 256.
\<close>

unbundle bit_operations_syntax

definition m32 :: "int \<Rightarrow> int" where
  "m32 x = x mod 4294967296"

definition rotr :: "nat \<Rightarrow> int \<Rightarrow> int" where
  "rotr n x = drop_bit n x OR m32 (push_bit (32 - n) x)"

definition Ch :: "int \<Rightarrow> int \<Rightarrow> int \<Rightarrow> int" where
  "Ch x y z = (x AND y) XOR ((x XOR 4294967295) AND z)"

definition Maj :: "int \<Rightarrow> int \<Rightarrow> int \<Rightarrow> int" where
  "Maj x y z = (x AND y) XOR (x AND z) XOR (y AND z)"

definition bsig0 :: "int \<Rightarrow> int" where
  "bsig0 x = rotr 2 x XOR rotr 13 x XOR rotr 22 x"

definition bsig1 :: "int \<Rightarrow> int" where
  "bsig1 x = rotr 6 x XOR rotr 11 x XOR rotr 25 x"

definition ssig0 :: "int \<Rightarrow> int" where
  "ssig0 x = rotr 7 x XOR rotr 18 x XOR drop_bit 3 x"

definition ssig1 :: "int \<Rightarrow> int" where
  "ssig1 x = rotr 17 x XOR rotr 19 x XOR drop_bit 10 x"

text \<open>
  The round constants and the initial hash value of the standard, written in decimal:
  the first is \<open>0x428a2f98\<close>, the initial hash value starts with \<open>0x6a09e667\<close>.
\<close>

definition K256 :: "int list" where
  "K256 =
    [1116352408, 1899447441, 3049323471, 3921009573, 961987163, 1508970993,
     2453635748, 2870763221, 3624381080, 310598401, 607225278, 1426881987,
     1925078388, 2162078206, 2614888103, 3248222580, 3835390401, 4022224774,
     264347078, 604807628, 770255983, 1249150122, 1555081692, 1996064986,
     2554220882, 2821834349, 2952996808, 3210313671, 3336571891, 3584528711,
     113926993, 338241895, 666307205, 773529912, 1294757372, 1396182291,
     1695183700, 1986661051, 2177026350, 2456956037, 2730485921, 2820302411,
     3259730800, 3345764771, 3516065817, 3600352804, 4094571909, 275423344,
     430227734, 506948616, 659060556, 883997877, 958139571, 1322822218,
     1537002063, 1747873779, 1955562222, 2024104815, 2227730452, 2361852424,
     2428436474, 2756734187, 3204031479, 3329325298]"

definition H256 :: "int list" where
  "H256 =
    [1779033703, 3144134277, 1013904242, 2773480762,
     1359893119, 2600822924, 528734635, 1541459225]"

text \<open>
  The 64 rounds of one block, one per constant. The third argument is the window
  \<open>W[t], ..., W[t+15]\<close> of the message schedule; each round appends \<open>W[t+16]\<close>.
\<close>

fun rounds :: "int list \<Rightarrow> int list \<Rightarrow> int list \<Rightarrow> int list" where
  "rounds [a, b, c, d, e, f, g, h] (k # ks) (w0 # w1 # ws) =
     (let t1 = m32 (h + bsig1 e + Ch e f g + k + w0);
          t2 = m32 (bsig0 a + Maj a b c);
          w16 = m32 (ssig1 (ws ! 12) + ws ! 7 + ssig0 w1 + w0)
      in rounds [m32 (t1 + t2), a, b, c, m32 (d + t1), e, f, g] ks (w1 # ws @ [w16]))"
| "rounds st _ _ = st"

definition compress :: "int list \<Rightarrow> int list \<Rightarrow> int list" where
  "compress hs block = map2 (\<lambda>x y. m32 (x + y)) hs (rounds hs K256 block)"

fun be_words :: "int list \<Rightarrow> int list" where
  "be_words (a # b # c # d # r) = (((a * 256 + b) * 256 + c) * 256 + d) # be_words r"
| "be_words _ = []"

definition pad :: "int list \<Rightarrow> int list" where
  "pad m =
     (let l = length m; z = (119 - l mod 64) mod 64
      in m @ [128] @ replicate z 0
           @ map (\<lambda>i. drop_bit (8 * i) (int (8 * l)) mod 256) [7, 6, 5, 4, 3, 2, 1, 0])"

fun blocks :: "int list \<Rightarrow> int list list" where
  "blocks ws = (if ws = [] then [] else take 16 ws # blocks (drop 16 ws))"

definition sha256 :: "int list \<Rightarrow> int list" where
  "sha256 m = foldl compress H256 (blocks (be_words (pad m)))"

text \<open>\<open>hexdigest()\<close>: eight hexadecimal digits per word, most significant first.\<close>

definition hex_digit :: "nat \<Rightarrow> char" where
  "hex_digit n = ''0123456789abcdef'' ! (n mod 16)"

definition hex_word :: "int \<Rightarrow> string" where
  "hex_word w =
     map (\<lambda>i. hex_digit (nat (drop_bit (4 * i) w mod 16))) [7, 6, 5, 4, 3, 2, 1, 0]"

definition hexdigest :: "int list \<Rightarrow> string" where
  "hexdigest ws = concat (map hex_word ws)"

text \<open>\<open>s.encode()\<close>, for the ASCII text the serialisation produces.\<close>

definition str_encode :: "string \<Rightarrow> int list" where
  "str_encode s = map (\<lambda>c. of_char c) s"

subsection \<open>\<open>log_decision\<close>\<close>

text \<open>
  \<open>feature_row.values.flatten()\<close> lists the cells row by row, each row in the frame's
  column order. \<open>str\<close> of a cell is the library's: the parameter \<open>str_v\<close>. For a frame of
  integers it is the decimal numeral \<open>str_int\<close>.
\<close>

definition values_flatten :: "'v frame \<Rightarrow> 'v list" where
  "values_flatten feature_row = concat (rows feature_row)"

definition feature_string :: "('v \<Rightarrow> string) \<Rightarrow> 'v frame \<Rightarrow> string" where
  "feature_string str_v feature_row = str_join '','' (map str_v (values_flatten feature_row))"

definition feature_hash_of :: "('v \<Rightarrow> string) \<Rightarrow> 'v frame \<Rightarrow> string" where
  "feature_hash_of str_v feature_row =
     hexdigest (sha256 (str_encode (feature_string str_v feature_row)))"

fun str_nat :: "nat \<Rightarrow> string" where
  "str_nat n = (if n < 10 then [hex_digit n] else str_nat (n div 10) @ [hex_digit (n mod 10)])"

definition str_int :: "int \<Rightarrow> string" where
  "str_int i = (if i < 0 then ''-'' @ str_nat (nat (- i)) else str_nat (nat i))"

text \<open>The record written to the log, with the keys of the dictionary in their order.\<close>

record audit_record =
  a_timestamp :: string
  a_decision :: string
  a_risk_score :: pyfloat
  a_anomaly_score :: pyfloat
  a_reason_code :: string
  a_feature_hash :: string
  a_model_versions :: "(string \<times> string) list"

text \<open>
  The part of the file system the function touches: whether the directory \<open>logs\<close>
  exists, and the content of \<open>logs/audit_log.jsonl\<close> (\<open>None\<close>: no such file).
\<close>

record log_files =
  logs_dir :: bool
  audit_log :: "string option"

definition log_content :: "log_files \<Rightarrow> string" where
  "log_content fs = (case audit_log fs of None \<Rightarrow> [] | Some content \<Rightarrow> content)"

text \<open>
  \<open>json.dumps\<close> and the clock are not the repository's: \<open>json_dumps\<close> is a parameter, and
  \<open>now\<close> is the text \<open>datetime.now(timezone.utc).isoformat()\<close> returns at the call.
  \<open>mkdir(exist_ok=True)\<close> creates the directory if it is missing; opening the file in
  mode \<open>"a"\<close> creates it if it is missing and writes at its end.
\<close>

definition audit_record_of ::
  "('v \<Rightarrow> string) \<Rightarrow> string \<Rightarrow> string \<Rightarrow> pyfloat \<Rightarrow> pyfloat \<Rightarrow> string \<Rightarrow> 'v frame
     \<Rightarrow> (string \<times> string) list \<Rightarrow> audit_record" where
  "audit_record_of str_v now decision risk_score anomaly_score reason_code feature_row
     model_versions =
     (let feature_values = values_flatten feature_row;
          feature_str = str_join '','' (map str_v feature_values);
          feature_hash = hexdigest (sha256 (str_encode feature_str))
      in \<lparr>a_timestamp = now, a_decision = decision, a_risk_score = risk_score,
           a_anomaly_score = anomaly_score, a_reason_code = reason_code,
           a_feature_hash = feature_hash, a_model_versions = model_versions\<rparr>)"

definition log_decision ::
  "('v \<Rightarrow> string) \<Rightarrow> (audit_record \<Rightarrow> string) \<Rightarrow> string \<Rightarrow> log_files
     \<Rightarrow> string \<Rightarrow> pyfloat \<Rightarrow> pyfloat \<Rightarrow> string \<Rightarrow> 'v frame \<Rightarrow> (string \<times> string) list
     \<Rightarrow> log_files" where
  "log_decision str_v json_dumps now fs decision risk_score anomaly_score reason_code
     feature_row model_versions =
     (let fs = fs\<lparr>logs_dir := True\<rparr>;
          audit_rec = audit_record_of str_v now decision risk_score anomaly_score
                        reason_code feature_row model_versions
      in fs\<lparr>audit_log := Some (log_content fs @ json_dumps audit_rec @ [CHR 0x0A])\<rparr>)"

text \<open>
  A sequence of decisions logged one after the other: each call with the clock reading
  and the arguments it is made with.
\<close>

record 'v log_call =
  c_now :: string
  c_decision :: string
  c_risk_score :: pyfloat
  c_anomaly_score :: pyfloat
  c_reason_code :: string
  c_feature_row :: "'v frame"
  c_model_versions :: "(string \<times> string) list"

definition call_record :: "('v \<Rightarrow> string) \<Rightarrow> 'v log_call \<Rightarrow> audit_record" where
  "call_record str_v c =
     audit_record_of str_v (c_now c) (c_decision c) (c_risk_score c) (c_anomaly_score c)
       (c_reason_code c) (c_feature_row c) (c_model_versions c)"

fun log_all ::
  "('v \<Rightarrow> string) \<Rightarrow> (audit_record \<Rightarrow> string) \<Rightarrow> log_files \<Rightarrow> 'v log_call list \<Rightarrow> log_files" where
  "log_all str_v json_dumps fs [] = fs"
| "log_all str_v json_dumps fs (c # cs) =
     log_all str_v json_dumps
       (log_decision str_v json_dumps (c_now c) fs (c_decision c) (c_risk_score c)
          (c_anomaly_score c) (c_reason_code c) (c_feature_row c) (c_model_versions c))
       cs"

text \<open>
  The lines of a file: the text before each line feed, and what follows the last line
  feed if the file does not end with one. A file of complete lines is empty or ends
  with a line feed.
\<close>

fun file_lines :: "string \<Rightarrow> string list" where
  "file_lines [] = []"
| "file_lines (c # cs) =
     (if c = CHR 0x0A then [] # file_lines cs
      else (case file_lines cs of [] \<Rightarrow> [[c]] | l # ls \<Rightarrow> (c # l) # ls))"

definition complete_lines :: "string \<Rightarrow> bool" where
  "complete_lines content = (content = [] \<or> last content = CHR 0x0A)"

section \<open>The rule layer decides as specified\<close>

lemma rules_unfold:
  "apply_decision_rules fp an q b =
     (if hard_block_combo fp an q b
      then (''HARD_BLOCK'', ''QR_NEW_BENEFICIARY_HIGH_FRAUD_HIGH_ANOMALY'')
      else if soft_fraud_cond fp \<and> soft_anomaly_cond an
      then (''SOFT_BLOCK'', ''FRAUD_SIGNAL_ANOMALY_SIGNAL'')
      else if soft_fraud_cond fp then (''SOFT_BLOCK'', ''FRAUD_SIGNAL'')
      else if soft_anomaly_cond an then (''SOFT_BLOCK'', ''ANOMALY_SIGNAL'')
      else (''ALLOW'', ''NO_SIGNIFICANT_RISK''))"
  by (simp add: apply_decision_rules_def hard_block_combo_def soft_fraud_cond_def
      soft_anomaly_cond_def HIGH_FRAUD_THRESHOLD_def SOFT_FRAUD_THRESHOLD_def
      HIGH_ANOMALY_THRESHOLD_def SOFT_ANOMALY_THRESHOLD_def Let_def)





text \<open>
  Claim C3. The rule layer is total: for every input it returns one of the three
  categories \<open>ALLOW\<close>, \<open>SOFT_BLOCK\<close>, \<open>HARD_BLOCK\<close> with a non-empty reason code, and it
  returns \<open>ALLOW\<close> with reason code \<open>NO_SIGNIFICANT_RISK\<close> precisely when neither the
  hard-block conjunction nor either soft condition holds.
\<close>

theorem decision_total:
  "fst (apply_decision_rules fp an q b) \<in> {''ALLOW'', ''SOFT_BLOCK'', ''HARD_BLOCK''}
   \<and> snd (apply_decision_rules fp an q b) \<noteq> []
   \<and> (apply_decision_rules fp an q b = (''ALLOW'', ''NO_SIGNIFICANT_RISK''))
       = (\<not> (py_ge fp (Fin 0.7) \<and> py_le an (Fin (- 0.15)) \<and> q = 1 \<and> b = 1)
          \<and> \<not> py_ge fp (Fin 0.5) \<and> \<not> py_le an (Fin (- 0.10)))
   \<and> (fst (apply_decision_rules fp an q b) = ''ALLOW'')
       = (\<not> (py_ge fp (Fin 0.7) \<and> py_le an (Fin (- 0.15)) \<and> q = 1 \<and> b = 1)
          \<and> \<not> py_ge fp (Fin 0.5) \<and> \<not> py_le an (Fin (- 0.10)))"
  unfolding rules_unfold hard_block_combo_def soft_fraud_cond_def soft_anomaly_cond_def
  by simp

theorem decision_total_witness:
  "apply_decision_rules (Fin 0.1) (Fin 0.5) 0 0 = (''ALLOW'', ''NO_SIGNIFICANT_RISK'')
   \<and> apply_decision_rules NaN NaN 1 1 = (''ALLOW'', ''NO_SIGNIFICANT_RISK'')"
proof -
  have c: "\<not> py_ge (Fin 0.1) (Fin 0.5) \<and> \<not> py_le (Fin 0.5) (Fin (- 0.10))
         \<and> \<not> py_ge NaN (Fin 0.5) \<and> \<not> py_le NaN (Fin (- 0.10))"
    by (simp add: py_ge_def)
  from decision_total [of "Fin 0.1" "Fin 0.5" 0 0] decision_total [of NaN NaN 1 1] c
  show ?thesis by simp
qed

section \<open>Malformed input\<close>






section \<open>The audit log\<close>

subsection \<open>The feature hash\<close>





text \<open>\<open>str\<close> of an integer is its decimal numeral: injective, and without a comma.\<close>

declare str_nat.simps [simp del]












subsection \<open>Appending to the log\<close>

lemma file_lines_nonempty: "s \<noteq> [] \<Longrightarrow> file_lines s \<noteq> []"
  by (cases s) (auto split: list.splits)

lemma file_lines_one: "CHR 0x0A \<notin> set l \<Longrightarrow> file_lines (l @ [CHR 0x0A]) = [l]"
  by (induction l) auto

lemma file_lines_app:
  "complete_lines s \<Longrightarrow> file_lines (s @ t) = file_lines s @ file_lines t"
proof (induction s)
  case Nil
  then show ?case by simp
next
  case (Cons c s)
  show ?case
  proof (cases "s = []")
    case True
    with Cons.prems show ?thesis by (simp add: complete_lines_def)
  next
    case False
    with Cons.prems have "complete_lines s" by (simp add: complete_lines_def)
    then have ih: "file_lines (s @ t) = file_lines s @ file_lines t" by (rule Cons.IH)
    from False obtain l ls where "file_lines s = l # ls"
      using file_lines_nonempty [of s] by (cases "file_lines s") auto
    with ih show ?thesis by simp
  qed
qed

lemma log_decision_content:
  "log_content (log_decision str_v json_dumps now fs d r a rc fr mv)
     = log_content fs @ json_dumps (audit_record_of str_v now d r a rc fr mv) @ [CHR 0x0A]"
  by (simp add: log_decision_def log_content_def Let_def)

lemma complete_lines_app: "complete_lines (s @ l @ [CHR 0x0A])"
  by (simp add: complete_lines_def)

lemma log_all_content:
  "\<exists>rest. log_content (log_all str_v json_dumps fs cs) = log_content fs @ rest"
proof (induction cs arbitrary: fs)
  case Nil
  then show ?case by simp
next
  case (Cons c cs)
  from Cons.IH [of "log_decision str_v json_dumps (c_now c) fs (c_decision c) (c_risk_score c)
          (c_anomaly_score c) (c_reason_code c) (c_feature_row c) (c_model_versions c)"]
  show ?case by (auto simp: log_decision_content)
qed

lemma log_all_lines:
  assumes nl: "\<And>r. CHR 0x0A \<notin> set (json_dumps r)"
  shows "complete_lines (log_content fs) \<Longrightarrow>
     file_lines (log_content (log_all str_v json_dumps fs cs))
       = file_lines (log_content fs) @ map (\<lambda>c. json_dumps (call_record str_v c)) cs"
proof (induction cs arbitrary: fs)
  case Nil
  then show ?case by simp
next
  case (Cons c cs)
  let ?fs = "log_decision str_v json_dumps (c_now c) fs (c_decision c) (c_risk_score c)
          (c_anomaly_score c) (c_reason_code c) (c_feature_row c) (c_model_versions c)"
  have c: "complete_lines (log_content ?fs)"
    by (simp add: log_decision_content complete_lines_app)
  have "file_lines (log_content ?fs)
      = file_lines (log_content fs) @ [json_dumps (call_record str_v c)]"
    using Cons.prems nl
    by (simp add: log_decision_content file_lines_app file_lines_one call_record_def)
  with Cons.IH [OF c] show ?case by simp
qed

text \<open>
  Claim C6. Every call of \<open>log_decision\<close> leaves the content the log had as it was and
  writes one line after it: the JSON text of the record, then a line feed. In a log of
  complete lines (a new or empty log, or one only this function has written), the lines
  after a call are the lines before it followed by the one new record, and after any
  sequence of calls they are the old lines followed by one record per call, in the order
  of the calls, so the number of records grows by one with each decision. The JSON
  encoder is the library's and writes no line feed into a record.
\<close>

theorem audit_log_append_only:
  assumes "\<And>r. CHR 0x0A \<notin> set (json_dumps r)"
    and "complete_lines (log_content fs)"
  shows "log_content (log_decision str_v json_dumps now fs d r a rc fr mv)
           = log_content fs @ json_dumps (audit_record_of str_v now d r a rc fr mv) @ [CHR 0x0A]
       \<and> file_lines (log_content (log_decision str_v json_dumps now fs d r a rc fr mv))
           = file_lines (log_content fs) @ [json_dumps (audit_record_of str_v now d r a rc fr mv)]
       \<and> complete_lines (log_content (log_decision str_v json_dumps now fs d r a rc fr mv))
       \<and> (\<exists>rest. log_content (log_all str_v json_dumps fs cs) = log_content fs @ rest)
       \<and> file_lines (log_content (log_all str_v json_dumps fs cs))
           = file_lines (log_content fs) @ map (\<lambda>c. json_dumps (call_record str_v c)) cs
       \<and> length (file_lines (log_content (log_all str_v json_dumps fs cs)))
           = length (file_lines (log_content fs)) + length cs"
proof -
  have 1: "file_lines (log_content (log_all str_v json_dumps fs cs))
           = file_lines (log_content fs) @ map (\<lambda>c. json_dumps (call_record str_v c)) cs"
    using assms by (rule log_all_lines)
  have 2: "file_lines (log_content (log_decision str_v json_dumps now fs d r a rc fr mv))
           = file_lines (log_content fs) @ [json_dumps (audit_record_of str_v now d r a rc fr mv)]"
    using assms by (simp add: log_decision_content file_lines_app file_lines_one)
  from 1 have 3: "length (file_lines (log_content (log_all str_v json_dumps fs cs)))
           = length (file_lines (log_content fs)) + length cs" by simp
  from 1 2 3 show ?thesis
    using log_all_content [of str_v json_dumps fs cs]
    by (simp add: log_decision_content complete_lines_app)
qed

theorem audit_log_append_only_witness:
  "file_lines (log_content (log_all str_int (\<lambda>r. filter (\<lambda>c. c \<noteq> CHR 0x0A) (a_decision r))
      \<lparr>logs_dir = False, audit_log = None\<rparr>
      [\<lparr>c_now = ''t1'', c_decision = ''ALLOW'', c_risk_score = Fin 0.1,
        c_anomaly_score = Fin 0.5, c_reason_code = ''NO_SIGNIFICANT_RISK'',
        c_feature_row = \<lparr>columns = [''is_qr''], rows = [[0]]\<rparr>, c_model_versions = []\<rparr>,
       \<lparr>c_now = ''t2'', c_decision = ''SOFT_BLOCK'', c_risk_score = Fin 0.6,
        c_anomaly_score = Fin 0, c_reason_code = ''FRAUD_SIGNAL'',
        c_feature_row = \<lparr>columns = [''is_qr''], rows = [[1]]\<rparr>, c_model_versions = []\<rparr>]))
   = [''ALLOW'', ''SOFT_BLOCK'']"
proof -
  let ?d = "\<lambda>r. filter (\<lambda>c. c \<noteq> CHR 0x0A) (a_decision r)"
  let ?fs = "\<lparr>logs_dir = False, audit_log = None\<rparr>"
  let ?cs = "[\<lparr>c_now = ''t1'', c_decision = ''ALLOW'', c_risk_score = Fin 0.1,
        c_anomaly_score = Fin 0.5, c_reason_code = ''NO_SIGNIFICANT_RISK'',
        c_feature_row = \<lparr>columns = [''is_qr''], rows = [[0 :: int]]\<rparr>, c_model_versions = []\<rparr>,
       \<lparr>c_now = ''t2'', c_decision = ''SOFT_BLOCK'', c_risk_score = Fin 0.6,
        c_anomaly_score = Fin 0, c_reason_code = ''FRAUD_SIGNAL'',
        c_feature_row = \<lparr>columns = [''is_qr''], rows = [[1]]\<rparr>, c_model_versions = []\<rparr>]"
  have n: "\<And>r. CHR 0x0A \<notin> set (?d r)" by simp
  have c: "complete_lines (log_content ?fs)"
    by (simp add: complete_lines_def log_content_def)
  have e: "file_lines (log_content ?fs) = []" by (simp add: log_content_def)
  from audit_log_append_only
    [where json_dumps = ?d and fs = ?fs and str_v = str_int and cs = ?cs, OF n c]
  have "file_lines (log_content (log_all str_int ?d ?fs ?cs))
      = file_lines (log_content ?fs) @ map (\<lambda>c. ?d (call_record str_int c)) ?cs"
    by blast
  with e show ?thesis
    by (simp add: call_record_def audit_record_of_def Let_def)
qed

section \<open>The explainer\<close>

subsection \<open>Determinism\<close>





subsection \<open>Scrubbing\<close>

subsubsection \<open>The matcher\<close>

lemma prev_at_Cons: "prev_at p (c # cs) (Suc n) = prev_at (Some c) cs n"
  by (cases n) (simp_all add: prev_at_def)

lemma prev_at_0: "prev_at p s 0 = p"
  by (simp add: prev_at_def)

lemma rmatch_min_len: "rmatch r p s = Some m \<Longrightarrow> min_len r \<le> m"
proof (induction r p s arbitrary: m rule: rmatch.induct)
  case (7 C lo hi r p c cs)
  show ?case
  proof (cases "C c \<and> hi_left hi")
    case True
    show ?thesis
    proof (cases "rmatch (Rep C (lo - 1) (hi_dec hi) # r) (Some c) cs")
      case None
      with True "7.prems" have "lo = 0" "rmatch r p (c # cs) = Some m"
        by (auto split: if_splits)
      with "7.IH"(2) [of m] True None show ?thesis by simp
    next
      case (Some n)
      with True "7.prems" have m: "m = Suc n" by simp
      from "7.IH"(1) [OF True Some] have "lo - 1 + min_len r \<le> n" by simp
      with m show ?thesis by simp
    qed
  next
    case False
    with "7.prems" have "lo = 0" "rmatch r p (c # cs) = Some m"
      by (auto split: if_splits)
    with "7.IH"(2) [of m] False show ?thesis by auto
  qed
qed (auto split: if_splits option.splits)

lemma rmatch_end_boundary:
  "rmatch r p s = Some m \<Longrightarrow> r \<noteq> [] \<Longrightarrow> last r = Bnd \<Longrightarrow>
     m \<le> length s \<and> at_boundary (prev_at p s m) (drop m s)"
proof (induction r p s arbitrary: m rule: rmatch.induct)
  case (2 r p s)
  then show ?case by (cases "r = []") (auto simp: prev_at_0 split: if_splits)
next
  case (3 C r p s)
  then show ?case by (cases "r = []") (auto split: if_splits option.splits)
next
  case (5 C r p c cs)
  then show ?case by (cases "r = []") (auto simp: prev_at_Cons split: if_splits)
next
  case (6 C lo hi r p)
  then show ?case by (cases "r = []") (auto split: if_splits)
next
  case (7 C lo hi r p c cs)
  from "7.prems" have rne: "r \<noteq> []" by (cases "r = []") auto
  show ?case
  proof (cases "C c \<and> hi_left hi")
    case True
    show ?thesis
    proof (cases "rmatch (Rep C (lo - 1) (hi_dec hi) # r) (Some c) cs")
      case None
      with True "7.prems" have "lo = 0" "rmatch r p (c # cs) = Some m"
        by (auto split: if_splits)
      with "7.IH"(2) [of m] True None rne "7.prems" show ?thesis by simp
    next
      case (Some n)
      with True "7.prems" have m: "m = Suc n" by simp
      from "7.IH"(1) [OF True Some] "7.prems" rne have
        "n \<le> length cs \<and> at_boundary (prev_at (Some c) cs n) (drop n cs)" by simp
      with m show ?thesis by (simp add: prev_at_Cons)
    qed
  next
    case False
    with "7.prems" have "lo = 0" "rmatch r p (c # cs) = Some m"
      by (auto split: if_splits)
    with "7.IH"(2) [of m] False rne "7.prems" show ?thesis by auto
  qed
qed auto

subsubsection \<open>Digit runs\<close>

lemma rep_digits_sound:
  "rmatch (Rep is_digit lo hi # r) p s = Some m \<Longrightarrow> dig_run lo s"
proof (induction s arbitrary: lo hi p m)
  case Nil
  then show ?case by (auto split: if_splits)
next
  case (Cons c cs)
  show ?case
  proof (cases lo)
    case 0
    then show ?thesis by simp
  next
    case (Suc l)
    with Cons.prems obtain n where
      n: "is_digit c" "rmatch (Rep is_digit l (hi_dec hi) # r) (Some c) cs = Some n"
      by (auto split: if_splits option.splits)
    from Cons.IH [OF n(2)] n(1) Suc show ?thesis by simp
  qed
qed

lemma rep_digits_complete:
  "dig_run lo s \<Longrightarrow> rmatch [Rep is_digit lo None] p s \<noteq> None"
proof (induction s arbitrary: lo p)
  case Nil
  then show ?case by (cases lo) auto
next
  case (Cons c cs)
  show ?case
  proof (cases lo)
    case 0
    then show ?thesis by (auto split: option.splits)
  next
    case (Suc l)
    with Cons.prems have d: "is_digit c" "dig_run l cs" by simp_all
    from Cons.IH [OF d(2), of "Some c"] d(1) Suc show ?thesis
      by (auto simp: hi_left_def hi_dec_def split: option.splits)
  qed
qed

lemma digits_match_iff:
  "(\<exists>n. amatch DIGITS_RE p s = Some (Suc n)) = dig_run 5 s"
proof
  assume "\<exists>n. amatch DIGITS_RE p s = Some (Suc n)"
  then obtain n where "rmatch [Rep is_digit 5 None] p s = Some (Suc n)"
    by (auto simp: DIGITS_RE_def split: option.splits)
  then show "dig_run 5 s" by (rule rep_digits_sound)
next
  assume d: "dig_run 5 s"
  from rep_digits_complete [OF d, of p] obtain m where
    m: "rmatch [Rep is_digit 5 None] p s = Some m" by auto
  from rmatch_min_len [OF m] have "5 \<le> m" by simp
  then obtain n where "m = Suc n" by (cases m) auto
  with m show "\<exists>n. amatch DIGITS_RE p s = Some (Suc n)" by (simp add: DIGITS_RE_def)
qed

lemma marker_not_digit: "\<not> is_digit (CHR ''['')"
  by (simp add: is_digit_def code_def)

lemma has_run5_marker: "has_run5 (REDACTED @ t) = has_run5 t"
  by (simp add: REDACTED_def is_digit_def code_def eval_nat_numeral)

lemma sub_first_marker:
  "amatch r p (c # cs) = Some (Suc n) \<Longrightarrow>
     re_sub_go r (\<lambda>_. REDACTED) p 0 (c # cs)
       = REDACTED @ re_sub_go r (\<lambda>_. REDACTED) (Some c) n cs"
  by simp

lemma sub_first_copy:
  "\<not> (\<exists>n. amatch r p (c # cs) = Some (Suc n)) \<Longrightarrow>
     re_sub_go r (\<lambda>_. REDACTED) p 0 (c # cs)
       = c # re_sub_go r (\<lambda>_. REDACTED) (Some c) 0 cs"
  by (auto split: option.splits nat.splits)

lemma dig_run_sub:
  "dig_run n (re_sub_go r (\<lambda>_. REDACTED) p 0 s) \<Longrightarrow> dig_run n s"
proof (induction s arbitrary: n p)
  case Nil
  then show ?case by simp
next
  case (Cons c cs)
  show ?case
  proof (cases n)
    case 0
    then show ?thesis by simp
  next
    case (Suc n')
    show ?thesis
    proof (cases "\<exists>k. amatch r p (c # cs) = Some (Suc k)")
      case True
      then obtain k where "amatch r p (c # cs) = Some (Suc k)" by blast
      from sub_first_marker [OF this] Cons.prems Suc marker_not_digit show ?thesis
        by (simp add: REDACTED_def)
    next
      case False
      from sub_first_copy [OF False] Cons.prems Suc
      have "is_digit c" "dig_run n' (re_sub_go r (\<lambda>_. REDACTED) (Some c) 0 cs)" by simp_all
      with Cons.IH [of n' "Some c"] Suc show ?thesis by simp
    qed
  qed
qed

lemma sub_digits_no_run: "\<not> has_run5 (re_sub_go DIGITS_RE (\<lambda>_. REDACTED) p k s)"
proof (induction s arbitrary: p k)
  case Nil
  then show ?case by simp
next
  case (Cons c cs)
  show ?case
  proof (cases k)
    case (Suc k')
    with Cons.IH show ?thesis by simp
  next
    case 0
    show ?thesis
    proof (cases "\<exists>n. amatch DIGITS_RE p (c # cs) = Some (Suc n)")
      case True
      then obtain n where "amatch DIGITS_RE p (c # cs) = Some (Suc n)" by blast
      from sub_first_marker [OF this] 0 Cons.IH show ?thesis by (simp add: has_run5_marker)
    next
      case False
      then have nd: "\<not> dig_run 5 (c # cs)" by (simp add: digits_match_iff)
      have "\<not> dig_run 5 (re_sub_go DIGITS_RE (\<lambda>_. REDACTED) p 0 (c # cs))"
        using dig_run_sub nd by blast
      with sub_first_copy [OF False] 0 Cons.IH [of "Some c" 0] show ?thesis by simp
    qed
  qed
qed

lemma has_run5_tail: "\<not> has_run5 (c # cs) \<Longrightarrow> \<not> has_run5 cs"
  by simp

lemma sub_keeps_no_run:
  "\<not> has_run5 s \<Longrightarrow> \<not> has_run5 (re_sub_go r (\<lambda>_. REDACTED) p k s)"
proof (induction s arbitrary: p k)
  case Nil
  then show ?case by simp
next
  case (Cons c cs)
  from Cons.prems have t: "\<not> has_run5 cs" and h: "\<not> dig_run 5 (c # cs)" by simp_all
  show ?case
  proof (cases k)
    case (Suc k')
    with Cons.IH [OF t] show ?thesis by simp
  next
    case 0
    show ?thesis
    proof (cases "\<exists>n. amatch r p (c # cs) = Some (Suc n)")
      case True
      then obtain n where "amatch r p (c # cs) = Some (Suc n)" by blast
      from sub_first_marker [OF this] 0 Cons.IH [OF t] show ?thesis
        by (simp add: has_run5_marker)
    next
      case False
      have "\<not> dig_run 5 (re_sub_go r (\<lambda>_. REDACTED) p 0 (c # cs))"
        using dig_run_sub h by blast
      with sub_first_copy [OF False] 0 Cons.IH [OF t, of "Some c" 0] show ?thesis by simp
    qed
  qed
qed

lemma scrub_pii_no_digit_run: "\<not> has_run5 (scrub_pii t)"
  by (simp add: scrub_pii_def Let_def re_sub_def sub_keeps_no_run sub_digits_no_run)

lemma search_digits_iff: "re_search_go DIGITS_RE p s = has_run5 s"
proof (induction s arbitrary: p)
  case Nil
  then show ?case by (simp add: DIGITS_RE_def)
next
  case (Cons c cs)
  have "(amatch DIGITS_RE p (c # cs) \<noteq> None) = dig_run 5 (c # cs)"
  proof
    assume "amatch DIGITS_RE p (c # cs) \<noteq> None"
    then obtain m where m: "rmatch [Rep is_digit 5 None] p (c # cs) = Some m"
      by (auto simp: DIGITS_RE_def split: option.splits)
    then show "dig_run 5 (c # cs)" by (rule rep_digits_sound)
  next
    assume "dig_run 5 (c # cs)"
    then show "amatch DIGITS_RE p (c # cs) \<noteq> None"
      using digits_match_iff [of p "c # cs"] by auto
  qed
  with Cons.IH show ?case by simp
qed

subsubsection \<open>Handles\<close>

lemma amatch_single: "amatch [r] p s = rmatch r p s"
  by (simp split: option.splits)

lemma rep0_bnd_complete: "at_boundary q s \<Longrightarrow> rmatch [Rep C 0 None, Bnd] q s \<noteq> None"
  by (cases s) (auto split: option.splits)

lemma d_tail_complete:
  "d_tail s \<Longrightarrow> lo \<le> 1 \<Longrightarrow> rmatch [Rep handle_cls lo None, Bnd] q s \<noteq> None"
proof (induction s arbitrary: lo q)
  case Nil
  then show ?case by simp
next
  case (Cons c cs)
  from Cons.prems have hc: "handle_cls c" and t: "at_boundary (Some c) cs \<or> d_tail cs"
    by simp_all
  have "rmatch [Rep handle_cls 0 None, Bnd] (Some c) cs \<noteq> None"
    using t
  proof
    assume "at_boundary (Some c) cs"
    then show ?thesis by (rule rep0_bnd_complete)
  next
    assume "d_tail cs"
    then show ?thesis by (rule Cons.IH) simp
  qed
  moreover from Cons.prems have "lo - 1 = 0" by simp
  ultimately show ?case using hc
    by (auto simp: hi_left_def hi_dec_def split: option.splits)
qed

lemma l_tail_complete:
  "l_tail s \<Longrightarrow>
     rmatch [Rep handle_cls 0 None, One is_at, Rep handle_cls 1 None, Bnd] q s \<noteq> None"
proof (induction s arbitrary: q)
  case Nil
  then show ?case by simp
next
  case (Cons c cs)
  from Cons.prems consider "c = CHR ''@''" "d_tail cs" | "handle_cls c" "l_tail cs"
    by auto
  then show ?case
  proof cases
    case 1
    from d_tail_complete [OF 1(2), of 1 "Some c"]
    have "rmatch [Rep handle_cls 1 None, Bnd] (Some c) cs \<noteq> None" by simp
    with 1(1) show ?thesis
      by (auto simp: is_at_def hi_left_def hi_dec_def split: option.splits)
  next
    case 2
    from Cons.IH [OF 2(2), of "Some c"] 2(1) show ?thesis
      by (auto simp: hi_left_def hi_dec_def split: option.splits)
  qed
qed

lemma h_match_complete:
  assumes "h_match p s"
  shows "\<exists>n. amatch HANDLE_RE p s = Some (Suc n)"
proof -
  from assms obtain c cs where s: "s = c # cs" by (cases s) auto
  with assms have b: "at_boundary p (c # cs)" and hc: "handle_cls c" and l: "l_tail cs"
    by simp_all
  from l_tail_complete [OF l, of "Some c"] obtain n where
    "rmatch [Rep handle_cls 0 None, One is_at, Rep handle_cls 1 None, Bnd] (Some c) cs = Some n"
    by auto
  with b hc s show ?thesis
    by (simp add: HANDLE_RE_def hi_left_def hi_dec_def)
qed

lemma d_tail_sound:
  "rmatch [Rep handle_cls lo None, Bnd] q s = Some m \<Longrightarrow>
     (if lo = 0 then at_boundary q s \<or> d_tail s else d_tail s)"
proof (induction s arbitrary: lo q m)
  case Nil
  then show ?case by (auto split: if_splits)
next
  case (Cons c cs)
  show ?case
  proof (cases "handle_cls c \<and> rmatch [Rep handle_cls (lo - 1) None, Bnd] (Some c) cs \<noteq> None")
    case True
    then obtain n where n: "rmatch [Rep handle_cls (lo - 1) None, Bnd] (Some c) cs = Some n"
      by auto
    from Cons.IH [OF n] have "at_boundary (Some c) cs \<or> d_tail cs" by (auto split: if_splits)
    with True show ?thesis by simp
  next
    case False
    with Cons.prems have "lo = 0" "at_boundary q (c # cs)"
      by (auto simp: hi_left_def hi_dec_def split: if_splits option.splits)
    then show ?thesis by simp
  qed
qed

lemma l_tail_sound:
  "rmatch [Rep handle_cls lo None, One is_at, Rep handle_cls 1 None, Bnd] q s = Some m \<Longrightarrow>
     (if lo = 0 then l_tail s else (\<exists>c cs. s = c # cs \<and> handle_cls c \<and> l_tail cs))"
proof (induction s arbitrary: lo q m)
  case Nil
  then show ?case by (auto split: if_splits)
next
  case (Cons c cs)
  show ?case
  proof (cases "handle_cls c \<and> rmatch [Rep handle_cls (lo - 1) None, One is_at,
                   Rep handle_cls 1 None, Bnd] (Some c) cs \<noteq> None")
    case True
    then obtain n where n: "rmatch [Rep handle_cls (lo - 1) None, One is_at,
                   Rep handle_cls 1 None, Bnd] (Some c) cs = Some n"
      by auto
    from Cons.IH [OF n] have "l_tail cs" by (auto split: if_splits)
    with True show ?thesis by simp
  next
    case False
    with Cons.prems have lo: "lo = 0"
      and r: "rmatch [One is_at, Rep handle_cls 1 None, Bnd] q (c # cs) = Some m"
      by (auto simp: hi_left_def hi_dec_def split: if_splits option.splits)
    from r obtain n where c: "c = CHR ''@''"
      and n: "rmatch [Rep handle_cls 1 None, Bnd] (Some c) cs = Some n"
      by (auto simp: is_at_def split: if_splits)
    from d_tail_sound [OF n] have "d_tail cs" by simp
    with lo c show ?thesis by simp
  qed
qed

lemma h_match_sound:
  assumes "amatch HANDLE_RE p s = Some m"
  shows "h_match p s"
proof -
  from assms have b: "at_boundary p s"
    and r: "rmatch [Rep handle_cls 1 None, One is_at, Rep handle_cls 1 None, Bnd] p s = Some m"
    by (auto simp: HANDLE_RE_def split: if_splits option.splits)
  from l_tail_sound [OF r] obtain c cs where "s = c # cs" "handle_cls c" "l_tail cs"
    by auto
  with b show ?thesis by simp
qed

lemma search_handle_iff: "re_search_go HANDLE_RE p s = h_any p s"
proof (induction s arbitrary: p)
  case Nil
  show ?case using h_match_sound [of p "[]"] by (cases "amatch HANDLE_RE p []") auto
next
  case (Cons c cs)
  have "(amatch HANDLE_RE p (c # cs) \<noteq> None) = h_match p (c # cs)"
    using h_match_sound [of p "c # cs"] h_match_complete [of p "c # cs"] by auto
  with Cons.IH show ?case by simp
qed

lemma marker_not_handle: "\<not> handle_cls (CHR ''['')" "CHR ''['' \<noteq> CHR ''@''"
  by (simp_all add: handle_cls_def is_word_def is_alpha_def is_upper_def is_lower_def
      is_digit_def code_def)

lemma h_any_marker: "h_any q (REDACTED @ t) = h_any (Some (CHR '']'')) t"
  by (simp add: REDACTED_def handle_cls_def is_word_def is_alpha_def is_upper_def is_lower_def
      is_digit_def code_def)

lemma at_boundary_hd: "at_boundary p (c # s) = at_boundary p (c # t)"
  by (simp add: at_boundary_def)

lemma sub_handle_boundary:
  "at_boundary p (re_sub_go HANDLE_RE (\<lambda>_. REDACTED) p 0 s) \<Longrightarrow> at_boundary p s"
proof (cases s)
  case Nil
  assume "at_boundary p (re_sub_go HANDLE_RE (\<lambda>_. REDACTED) p 0 s)"
  with Nil show ?thesis by simp
next
  case (Cons c cs)
  assume a: "at_boundary p (re_sub_go HANDLE_RE (\<lambda>_. REDACTED) p 0 s)"
  show ?thesis
  proof (cases "\<exists>n. amatch HANDLE_RE p (c # cs) = Some (Suc n)")
    case True
    then obtain n where "amatch HANDLE_RE p (c # cs) = Some (Suc n)" by blast
    from h_match_sound [OF this] Cons show ?thesis by simp
  next
    case False
    from sub_first_copy [OF False] a Cons show ?thesis
      using at_boundary_hd by auto
  qed
qed

lemma d_tail_sub:
  "d_tail (re_sub_go HANDLE_RE (\<lambda>_. REDACTED) p 0 s) \<Longrightarrow> d_tail s"
proof (induction s arbitrary: p)
  case Nil
  then show ?case by simp
next
  case (Cons c cs)
  show ?case
  proof (cases "\<exists>n. amatch HANDLE_RE p (c # cs) = Some (Suc n)")
    case True
    then obtain n where "amatch HANDLE_RE p (c # cs) = Some (Suc n)" by blast
    from sub_first_marker [OF this] Cons.prems marker_not_handle show ?thesis
      by (simp add: REDACTED_def)
  next
    case False
    from sub_first_copy [OF False] Cons.prems
    have hc: "handle_cls c"
      and t: "at_boundary (Some c) (re_sub_go HANDLE_RE (\<lambda>_. REDACTED) (Some c) 0 cs)
            \<or> d_tail (re_sub_go HANDLE_RE (\<lambda>_. REDACTED) (Some c) 0 cs)"
      by simp_all
    from t have "at_boundary (Some c) cs \<or> d_tail cs"
      using sub_handle_boundary [of "Some c" cs] Cons.IH [of "Some c"] by blast
    with hc show ?thesis by simp
  qed
qed

lemma l_tail_sub:
  "l_tail (re_sub_go HANDLE_RE (\<lambda>_. REDACTED) p 0 s) \<Longrightarrow> l_tail s"
proof (induction s arbitrary: p)
  case Nil
  then show ?case by simp
next
  case (Cons c cs)
  show ?case
  proof (cases "\<exists>n. amatch HANDLE_RE p (c # cs) = Some (Suc n)")
    case True
    then obtain n where "amatch HANDLE_RE p (c # cs) = Some (Suc n)" by blast
    from sub_first_marker [OF this] Cons.prems marker_not_handle show ?thesis
      by (simp add: REDACTED_def)
  next
    case False
    from sub_first_copy [OF False] Cons.prems
    have "(c = CHR ''@'' \<and> d_tail (re_sub_go HANDLE_RE (\<lambda>_. REDACTED) (Some c) 0 cs))
        \<or> (handle_cls c \<and> l_tail (re_sub_go HANDLE_RE (\<lambda>_. REDACTED) (Some c) 0 cs))"
      by simp
    then have "(c = CHR ''@'' \<and> d_tail cs) \<or> (handle_cls c \<and> l_tail cs)"
      using d_tail_sub [of "Some c" cs] Cons.IH [of "Some c"] by blast
    then show ?thesis by simp
  qed
qed

lemma sub_handle_clean:
  "(k = 0 \<and> q = p) \<or> (k \<le> length s \<and> at_boundary (prev_at p s k) (drop k s)) \<Longrightarrow>
     \<not> h_any q (re_sub_go HANDLE_RE (\<lambda>_. REDACTED) p k s)"
proof (induction s arbitrary: p k q)
  case Nil
  then show ?case by simp
next
  case (Cons c cs)
  show ?case
  proof (cases k)
    case (Suc k')
    with Cons.prems have "k' \<le> length cs \<and> at_boundary (prev_at (Some c) cs k') (drop k' cs)"
      by (simp add: prev_at_Cons)
    from Cons.IH [of k' q "Some c"] this Suc show ?thesis by simp
  next
    case 0
    show ?thesis
    proof (cases "\<exists>n. amatch HANDLE_RE p (c # cs) = Some (Suc n)")
      case True
      then obtain n where n: "amatch HANDLE_RE p (c # cs) = Some (Suc n)" by blast
      then have "rmatch [Bnd, Rep handle_cls 1 None, One is_at, Rep handle_cls 1 None, Bnd]
          p (c # cs) = Some (Suc n)"
        by (simp only: HANDLE_RE_def amatch_single)
      from rmatch_end_boundary [OF this]
      have "n \<le> length cs \<and> at_boundary (prev_at (Some c) cs n) (drop n cs)"
        by (simp add: prev_at_Cons)
      from Cons.IH [of n "Some (CHR '']'')" "Some c"] this
      have "\<not> h_any (Some (CHR '']'')) (re_sub_go HANDLE_RE (\<lambda>_. REDACTED) (Some c) n cs)"
        by simp
      with sub_first_marker [OF n] 0 show ?thesis by (simp add: h_any_marker)
    next
      case False
      let ?out = "re_sub_go HANDLE_RE (\<lambda>_. REDACTED) (Some c) 0 cs"
      have rest: "\<not> h_any (Some c) ?out" using Cons.IH [of 0 "Some c" "Some c"] by simp
      have "\<not> h_match q (c # ?out)"
      proof
        assume h: "h_match q (c # ?out)"
        then have hc: "handle_cls c" and l: "l_tail cs" and bq: "at_boundary q (c # ?out)"
          using l_tail_sub [of "Some c" cs] by simp_all
        from Cons.prems 0 have "q = p \<or> at_boundary p (c # cs)"
          by (auto simp: prev_at_0)
        with bq have "at_boundary p (c # cs)" using at_boundary_hd by auto
        with hc l have "h_match p (c # cs)" by simp
        from h_match_complete [OF this] False show False by simp
      qed
      with rest sub_first_copy [OF False] 0 show ?thesis by simp
    qed
  qed
qed

text \<open>
  A scrubbed text holds no match of the handle pattern \<open>\b[\w.-]+@[\w.-]+\b\<close>.
\<close>

theorem scrub_pii_no_handle: "\<not> re_search HANDLE_RE (scrub_pii t)"
  using sub_handle_clean [of 0 None None]
  by (simp add: scrub_pii_def Let_def re_sub_def re_search_def search_handle_iff)

text \<open>A scrubbed text holds no run of five or more digits: no match of \<open>\d{5,}\<close>.\<close>

theorem scrub_pii_no_digits: "\<not> re_search DIGITS_RE (scrub_pii t)"
  by (simp add: re_search_def search_digits_iff scrub_pii_no_digit_run)

lemma sub_no_match_id: "\<not> re_search_go r p s \<Longrightarrow> re_sub_go r f p 0 s = s"
  by (induction s arbitrary: p) auto

lemma scrub_fixpoint:
  assumes "\<not> re_search EMAIL_RE u" "\<not> re_search DIGITS_RE u" "\<not> re_search HANDLE_RE u"
  shows "scrub_pii u = u"
  using assms by (simp add: scrub_pii_def Let_def re_sub_def re_search_def sub_no_match_id)

text \<open>
  A second pass changes nothing whenever the first pass left no match of the e-mail
  pattern behind.
\<close>

theorem scrub_pii_idempotent_if:
  "\<not> re_search EMAIL_RE (scrub_pii t) \<Longrightarrow> scrub_pii (scrub_pii t) = scrub_pii t"
  by (rule scrub_fixpoint) (simp_all add: scrub_pii_no_digits scrub_pii_no_handle)

subsubsection \<open>The summary\<close>

lemma space_facts: "\<not> is_digit (CHR '' '')" "\<not> handle_cls (CHR '' '')" "\<not> is_word (CHR '' '')"
  "CHR '' '' \<noteq> CHR ''@''"
  by (simp_all add: handle_cls_def is_word_def is_alpha_def is_upper_def is_lower_def
      is_digit_def code_def)

lemma dig_run_app: "dig_run n (a @ CHR '' '' # b) \<Longrightarrow> dig_run n a"
proof (induction a arbitrary: n)
  case Nil
  then show ?case using space_facts by (cases n) simp_all
next
  case (Cons c a)
  then show ?case by (cases n) simp_all
qed

lemma has_run5_app: "has_run5 (a @ CHR '' '' # b) \<Longrightarrow> has_run5 a \<or> has_run5 b"
proof (induction a)
  case Nil
  then show ?case using space_facts by (simp add: eval_nat_numeral)
next
  case (Cons c a)
  from Cons.prems have "dig_run 5 ((c # a) @ CHR '' '' # b) \<or> has_run5 (a @ CHR '' '' # b)"
    by simp
  then show ?case
  proof
    assume "dig_run 5 ((c # a) @ CHR '' '' # b)"
    then have "dig_run 5 (c # a)" by (rule dig_run_app)
    then show ?thesis by simp
  next
    assume "has_run5 (a @ CHR '' '' # b)"
    with Cons.IH show ?thesis by auto
  qed
qed

lemma at_boundary_app:
  "at_boundary p (a @ CHR '' '' # b) \<Longrightarrow> at_boundary p a"
  using space_facts by (cases a) (simp_all add: at_boundary_def word_opt_def)

lemma d_tail_app: "d_tail (a @ CHR '' '' # b) \<Longrightarrow> d_tail a"
proof (induction a)
  case Nil
  then show ?case using space_facts by simp
next
  case (Cons c a)
  then show ?case using at_boundary_app [of "Some c" a b] by auto
qed

lemma l_tail_app: "l_tail (a @ CHR '' '' # b) \<Longrightarrow> l_tail a"
proof (induction a)
  case Nil
  then show ?case using space_facts by simp
next
  case (Cons c a)
  then show ?case using d_tail_app [of a b] by auto
qed

lemma h_any_word_opt: "word_opt p = word_opt q \<Longrightarrow> h_any p s = h_any q s"
  by (cases s) (simp_all add: at_boundary_def)

lemma h_any_app: "h_any p (a @ CHR '' '' # b) \<Longrightarrow> h_any p a \<or> h_any None b"
proof (induction a arbitrary: p)
  case Nil
  have "h_any (Some (CHR '' '')) b = h_any None b"
    using space_facts by (intro h_any_word_opt) (simp add: word_opt_def)
  with Nil show ?case using space_facts by simp
next
  case (Cons c a)
  from Cons.prems have "h_match p (c # a @ CHR '' '' # b) \<or> h_any (Some c) (a @ CHR '' '' # b)"
    by simp
  then show ?case
  proof
    assume "h_match p (c # a @ CHR '' '' # b)"
    then have "h_match p (c # a)"
      using l_tail_app [of a b] at_boundary_hd [of p c] by auto
    then show ?thesis by simp
  next
    assume "h_any (Some c) (a @ CHR '' '' # b)"
    with Cons.IH [of "Some c"] show ?thesis by auto
  qed
qed

lemma clean_app: "clean a \<Longrightarrow> clean b \<Longrightarrow> clean (a @ CHR '' '' # b)"
  using has_run5_app [of a b] h_any_app [of None a b] by (auto simp: clean_def)

lemma clean_join: "\<forall>x \<in> set xs. clean x \<Longrightarrow> clean (str_join '' '' xs)"
proof (induction "'' ''" xs rule: str_join.induct)
  case 1
  then show ?case by (simp add: clean_def)
next
  case (2 x)
  then show ?case by simp
next
  case (3 x y ys)
  then show ?case using clean_app [of x "str_join '' '' (y # ys)"] by simp
qed

lemma clean_scrub: "clean (scrub_pii s)"
  using scrub_pii_no_digit_run [of s] scrub_pii_no_handle [of s]
  by (simp add: clean_def re_search_def search_handle_iff)


lemma add_sentences_clean:
  "\<forall>x \<in> set acc. clean x \<Longrightarrow> \<forall>x \<in> set (add_sentences acc ss). clean x"
proof (induction ss arbitrary: acc)
  case Nil
  then show ?case by simp
next
  case (Cons s ss)
  show ?case
  proof (cases "scrub_pii s \<noteq> [] \<and> scrub_pii s \<notin> set acc")
    case True
    have "\<forall>x \<in> set (acc @ [scrub_pii s]). clean x" using Cons.prems clean_scrub by auto
    from Cons.IH [OF this] True show ?thesis by (simp add: Let_def)
  next
    case False
    from Cons.IH [OF Cons.prems] False show ?thesis by (auto simp: Let_def)
  qed
qed

lemma summarize_clean:
  "\<forall>x \<in> set acc. clean x \<Longrightarrow> \<forall>x \<in> set (summarize toks acc chunks). clean x"
proof (induction chunks arbitrary: acc)
  case Nil
  then show ?case by simp
next
  case (Cons c cs)
  from add_sentences_clean [OF Cons.prems]
  have "\<forall>x \<in> set (add_sentences acc (extract_relevant_sentences c toks 2)). clean x" .
  from Cons.IH [OF this] show ?case by simp
qed

lemma clean_iff: "clean s = (\<not> re_search DIGITS_RE s \<and> \<not> re_search HANDLE_RE s)"
  by (simp only: clean_def re_search_def search_digits_iff search_handle_iff)

lemma fallback_clean: "clean ''No relevant guidance found in the knowledge index.''"
proof -
  have "\<not> re_search DIGITS_RE ''No relevant guidance found in the knowledge index.''"
    "\<not> re_search HANDLE_RE ''No relevant guidance found in the knowledge index.''"
    by code_simp+
  then show ?thesis unfolding clean_iff by blast
qed

lemma body_clean: "clean (explanation_body (summary_of lib m i cs rc))"
proof -
  have "\<forall>x \<in> set (summary_of lib m i cs rc). clean x"
    unfolding summary_of_def Let_def by (rule summarize_clean) simp
  then show ?thesis
    using clean_join fallback_clean by (simp add: explanation_body_def)
qed

text \<open>
  The summary of every text \<open>explain_decision\<close> returns holds no run of five or more
  digits and no match of the handle pattern.
\<close>

theorem explain_body_scrubbed:
  assumes "explain_decision lib files g rc = (Inr t, g')"
  shows "\<exists>body. t = compose_explanation rc body
           \<and> \<not> re_search DIGITS_RE body \<and> \<not> re_search HANDLE_RE body"
proof -
  from assms obtain m i cs where
    "t = compose_explanation rc (explanation_body (summary_of lib m i cs rc))"
    by (auto simp: explain_decision_def load_model_def load_index_and_chunks_def
      split: if_splits option.splits sum.splits prod.splits)
  with body_clean [of lib m i cs rc] show ?thesis
    unfolding clean_iff by blast
qed

subsubsection \<open>E-mail-like tokens\<close>

text \<open>
  Claim C8 fails on the code, in its part on e-mail-like tokens; the parts on digit runs
  and on handles hold, as shown above. The index holds one chunk, the sentence
  \<open>Guidance: refunds go to john%@mail.com12345 today.\<close>, and the search returns it. The
  e-mail pattern does not match in the chunk, because the digits follow the domain
  without a word boundary. The second substitution redacts the digits; the third does
  not match, because \<open>%\<close> is not in its class. The text returned holds
  \<open>john%@mail.com\<close>, which the e-mail pattern of \<open>_scrub_pii\<close> itself matches.
\<close>

theorem explain_leaks_email_token:
  "explain_decision \<lparr>encode = (\<lambda>m q. ()), search = (\<lambda>i q k. [0, - 1, - 1])\<rparr>
      \<lparr>model_store = Inr (), vector_index_file = Some (),
       chunks_file = Some [''Guidance: refunds go to john%@mail.com12345 today.'']\<rparr>
      \<lparr>g_model = None, g_index = None, g_chunks = None\<rparr> ''HIGH_VALUE''
   = (Inr (compose_explanation ''HIGH_VALUE''
             ''Guidance: refunds go to john%@mail.com[REDACTED] today.''),
      \<lparr>g_model = Some (), g_index = Some (),
       g_chunks = Some [''Guidance: refunds go to john%@mail.com12345 today.'']\<rparr>)
   \<and> re_search EMAIL_RE ''Guidance: refunds go to john%@mail.com[REDACTED] today.''"
  by code_simp

text \<open>
  Claim C10 fails on the code, by the same defect: scrubbing \<open>a%@c.com12345\<close> leaves
  \<open>a%@c.com[REDACTED]\<close>, and scrubbing that again redacts the e-mail-like token the first
  pass left behind. A second pass changes a scrubbed text in no other case.
\<close>

theorem scrub_pii_not_idempotent:
  "scrub_pii ''a%@c.com12345'' = ''a%@c.com[REDACTED]''
   \<and> scrub_pii (scrub_pii ''a%@c.com12345'') = ''[REDACTED][REDACTED]''"
  by code_simp

section \<open>Chunking the knowledge files\<close>













end
